theory Spec2Isabelle
  imports Main
begin

section \<open>The result type (Result.go)\<close>

text \<open>
  \<^verbatim>\<open>type _Result[T any] struct { Value T; Error error }\<close>

  Go's \<^verbatim>\<open>error\<close> is an interface value that may be \<^verbatim>\<open>nil\<close>: it is modelled as
  \<open>'e option\<close>, with \<open>None\<close> for \<^verbatim>\<open>nil\<close>. The error values themselves are opaque
  (a type variable).
\<close>

record ('a, 'e) result =
  Value :: 'a
  Error :: "'e option"

text \<open>
  \<^verbatim>\<open>func success[T any](val T) _Result[T]\<close> and
  \<^verbatim>\<open>func fail[T any](err error) _Result[T]\<close>.
  The type argument \<^verbatim>\<open>T\<close> of \<^verbatim>\<open>fail\<close> is used for \<^verbatim>\<open>*new(T)\<close> only, the zero
  value of \<^verbatim>\<open>T\<close>; the model passes that zero value as the argument \<open>zero\<close>.
\<close>

definition success :: "'a \<Rightarrow> ('a, 'e) result" where
  "success val = \<lparr>Value = val, Error = None\<rparr>"

definition fail :: "'a \<Rightarrow> 'e option \<Rightarrow> ('a, 'e) result" where
  "fail zero err = \<lparr>Value = zero, Error = err\<rparr>"

section \<open>The goroutines of Do and Stream (Async.go)\<close>

text \<open>
  How a call of the user's function ends, as far as the goroutine goes on after it:
  the call returns its tuple, or it panics, or it ends the goroutine without a
  panic (\<^verbatim>\<open>runtime.Goexit\<close>). A call that never comes back, or that ends the whole
  process at once (\<^verbatim>\<open>os.Exit\<close>), is left out: after it the goroutine does nothing,
  it does not even run the deferred close.
\<close>

datatype 'r returned = Returns 'r | Panics | Goexits

text \<open>
  What the goroutine started by \<^verbatim>\<open>Do\<close> or \<^verbatim>\<open>Stream\<close> does, in program order:
  it calls the user's function with a context, it sends a result on the channel
  \<^verbatim>\<open>r\<close>, it closes \<^verbatim>\<open>r\<close>, and, when a panic is not recovered, it takes the
  process down (\<open>Fault\<close>).
\<close>

datatype ('c, 'a, 'e) event =
  Call 'c
| Send "('a, 'e) result"
| Close
| Fault

text \<open>How the body of the goroutine's function literal ends.\<close>

datatype ending = Normal | Panicked | Exited

text \<open>
  \<^verbatim>\<open>defer close(r)\<close> is the first statement of both function literals. A deferred
  call runs when the function returns and also when it panics; nothing in the
  function literals calls \<^verbatim>\<open>recover\<close>, so after the deferred call a panic goes on
  to terminate the program. \<^verbatim>\<open>runtime.Goexit\<close> runs the deferred calls too, and
  then only the goroutine ends.
\<close>

fun deferred_close :: "('c, 'a, 'e) event list \<times> ending \<Rightarrow> ('c, 'a, 'e) event list" where
  "deferred_close (r, Normal) = r @ [Close]"
| "deferred_close (r, Panicked) = r @ [Close, Fault]"
| "deferred_close (r, Exited) = r @ [Close]"

text \<open>
  The body of the goroutine of \<^verbatim>\<open>Do\<close>, after the \<^verbatim>\<open>defer\<close>:
  \<^verbatim>\<open>
    result, err := action(ctx)
    if err != nil { r <- fail[T](err) } else { r <- success[T](result) }
  \<close>
  The argument \<open>r\<close> is the events of the goroutine so far.
\<close>

definition Do_body ::
  "'a \<Rightarrow> 'c \<Rightarrow> ('c \<Rightarrow> ('a \<times> 'e option) returned) \<Rightarrow> ('c, 'a, 'e) event list
    \<Rightarrow> ('c, 'a, 'e) event list \<times> ending" where
  "Do_body zero ctx action r =
     (case action ctx of
        Panics \<Rightarrow> (r @ [Call ctx], Panicked)
      | Goexits \<Rightarrow> (r @ [Call ctx], Exited)
      | Returns (result, err) \<Rightarrow>
          if err \<noteq> None
          then (r @ [Call ctx, Send (fail zero err)], Normal)
          else (r @ [Call ctx, Send (success result)], Normal))"

text \<open>
  \<^verbatim>\<open>Do\<close> makes the channel (\<^verbatim>\<open>make(Result[T])\<close>, nothing on it yet), starts the
  goroutine and returns the channel. The model gives the events of the goroutine.
\<close>

definition Do ::
  "'a \<Rightarrow> 'c \<Rightarrow> ('c \<Rightarrow> ('a \<times> 'e option) returned) \<Rightarrow> ('c, 'a, 'e) event list" where
  "Do zero ctx action = deferred_close (Do_body zero ctx action [])"

text \<open>
  The loop of the goroutine of \<^verbatim>\<open>Stream\<close>:
  \<^verbatim>\<open>
    for {
      result, err, next := step(ctx)
      if err != nil { r <- fail[T](err) } else { r <- success[T](result) }
      if !next { break }
    }
  \<close>
  \<^verbatim>\<open>step\<close> is a closure: what it returns may change from call to call. The
  variables it captures are the state \<open>s\<close>, which each call takes and returns.
  The loop has no bound, so it is a partial function: \<open>None\<close> is a loop that never
  ends.
\<close>

partial_function (option) Stream_loop ::
  "'a \<Rightarrow> 'c \<Rightarrow> ('c \<Rightarrow> 's \<Rightarrow> ('a \<times> 'e option \<times> bool) returned \<times> 's) \<Rightarrow> 's
    \<Rightarrow> ('c, 'a, 'e) event list \<Rightarrow> (('c, 'a, 'e) event list \<times> ending) option" where
  "Stream_loop zero ctx step s r =
     (case step ctx s of
        (Panics, s') \<Rightarrow> Some (r @ [Call ctx], Panicked)
      | (Goexits, s') \<Rightarrow> Some (r @ [Call ctx], Exited)
      | (Returns (result, err, next), s') \<Rightarrow>
          if err \<noteq> None
          then (if \<not> next then Some (r @ [Call ctx, Send (fail zero err)], Normal)
                else Stream_loop zero ctx step s' (r @ [Call ctx, Send (fail zero err)]))
          else (if \<not> next then Some (r @ [Call ctx, Send (success result)], Normal)
                else Stream_loop zero ctx step s' (r @ [Call ctx, Send (success result)])))"

text \<open>
  \<^verbatim>\<open>Stream\<close> makes the channel (\<^verbatim>\<open>make(Sequence[T])\<close>), starts the goroutine and
  returns the channel. The events of the goroutine are those of the loop and then
  the deferred close; there are none to give when the loop never ends.
\<close>

definition Stream ::
  "'a \<Rightarrow> 'c \<Rightarrow> ('c \<Rightarrow> 's \<Rightarrow> ('a \<times> 'e option \<times> bool) returned \<times> 's) \<Rightarrow> 's
    \<Rightarrow> ('c, 'a, 'e) event list option" where
  "Stream zero ctx step s = map_option deferred_close (Stream_loop zero ctx step s [])"

text \<open>
  The same loop, cut off after \<open>n\<close> passes through its body: the events of the
  goroutine up to there, and how the loop ended when it ended within these passes
  (\<open>None\<close>: the goroutine is still in the loop). It is total, so it also says what
  a goroutine does whose loop never ends.
\<close>

fun Stream_prefix ::
  "nat \<Rightarrow> 'a \<Rightarrow> 'c \<Rightarrow> ('c \<Rightarrow> 's \<Rightarrow> ('a \<times> 'e option \<times> bool) returned \<times> 's) \<Rightarrow> 's
    \<Rightarrow> ('c, 'a, 'e) event list \<Rightarrow> ('c, 'a, 'e) event list \<times> ending option" where
  "Stream_prefix 0 zero ctx step s r = (r, None)"
| "Stream_prefix (Suc n) zero ctx step s r =
     (case step ctx s of
        (Panics, s') \<Rightarrow> (r @ [Call ctx], Some Panicked)
      | (Goexits, s') \<Rightarrow> (r @ [Call ctx], Some Exited)
      | (Returns (result, err, next), s') \<Rightarrow>
          if err \<noteq> None
          then (if \<not> next then (r @ [Call ctx, Send (fail zero err)], Some Normal)
                else Stream_prefix n zero ctx step s' (r @ [Call ctx, Send (fail zero err)]))
          else (if \<not> next then (r @ [Call ctx, Send (success result)], Some Normal)
                else Stream_prefix n zero ctx step s' (r @ [Call ctx, Send (success result)])))"

text \<open>
  The events of the goroutine of \<^verbatim>\<open>Stream\<close> within the first \<open>n\<close> passes through the
  loop body, the deferred close included once the loop has ended.
\<close>

definition Stream_events ::
  "nat \<Rightarrow> 'a \<Rightarrow> 'c \<Rightarrow> ('c \<Rightarrow> 's \<Rightarrow> ('a \<times> 'e option \<times> bool) returned \<times> 's) \<Rightarrow> 's
    \<Rightarrow> ('c, 'a, 'e) event list" where
  "Stream_events n zero ctx step s =
     (case Stream_prefix n zero ctx step s [] of
        (r, None) \<Rightarrow> r
      | (r, Some e) \<Rightarrow> deferred_close (r, e))"

section \<open>Reading a run\<close>

text \<open>
  The result both goroutines send for a returned \<^verbatim>\<open>(result, err)\<close>, and the events of
  one pass through the loop body of \<^verbatim>\<open>Stream\<close> for a returned tuple.
\<close>

definition result_of :: "'a \<Rightarrow> 'a \<Rightarrow> 'e option \<Rightarrow> ('a, 'e) result" where
  "result_of zero result err = (if err \<noteq> None then fail zero err else success result)"

fun continue :: "'a \<times> 'e option \<times> bool \<Rightarrow> bool" where
  "continue (result, err, next) = next"

fun iteration :: "'a \<Rightarrow> 'c \<Rightarrow> 'a \<times> 'e option \<times> bool \<Rightarrow> ('c, 'a, 'e) event list" where
  "iteration zero ctx (result, err, next) = [Call ctx, Send (result_of zero result err)]"

text \<open>The results sent in a run, and the contexts the user's function was called with.\<close>

fun sent :: "('c, 'a, 'e) event list \<Rightarrow> ('a, 'e) result list" where
  "sent [] = []"
| "sent (Send x # es) = x # sent es"
| "sent (e # es) = sent es"

fun called :: "('c, 'a, 'e) event list \<Rightarrow> 'c list" where
  "called [] = []"
| "called (Call c # es) = c # called es"
| "called (e # es) = called es"

text \<open>What happens on the channel and to the process: every event but the calls.\<close>

fun on_channel :: "('c, 'a, 'e) event \<Rightarrow> bool" where
  "on_channel (Call c) = False"
| "on_channel e = True"

definition channel_events :: "('c, 'a, 'e) event list \<Rightarrow> ('c, 'a, 'e) event list" where
  "channel_events tr = filter on_channel tr"

text \<open>
  What the first \<open>n\<close> calls of a closure return, one after the other from the state
  \<open>s\<close>, and the state they leave.
\<close>

fun step_calls :: "('c \<Rightarrow> 's \<Rightarrow> 'r \<times> 's) \<Rightarrow> 'c \<Rightarrow> 's \<Rightarrow> nat \<Rightarrow> 'r list" where
  "step_calls step ctx s 0 = []"
| "step_calls step ctx s (Suc n) = (case step ctx s of (x, s') \<Rightarrow> x # step_calls step ctx s' n)"

fun step_state :: "('c \<Rightarrow> 's \<Rightarrow> 'r \<times> 's) \<Rightarrow> 'c \<Rightarrow> 's \<Rightarrow> nat \<Rightarrow> 's" where
  "step_state step ctx s 0 = s"
| "step_state step ctx s (Suc n) = step_state step ctx (snd (step ctx s)) n"

text \<open>
  What the calls return that the loop of \<^verbatim>\<open>Stream\<close> makes, at most \<open>n\<close> of them:
  the loop makes a further call only after a call that returned with
  \<open>next = true\<close>.
\<close>

fun continues :: "('a \<times> 'e option \<times> bool) returned \<Rightarrow> bool" where
  "continues (Returns (result, err, next)) = next"
| "continues Panics = False"
| "continues Goexits = False"

fun loop_calls ::
  "('c \<Rightarrow> 's \<Rightarrow> ('a \<times> 'e option \<times> bool) returned \<times> 's) \<Rightarrow> 'c \<Rightarrow> 's \<Rightarrow> nat
    \<Rightarrow> ('a \<times> 'e option \<times> bool) returned list" where
  "loop_calls step ctx s 0 = []"
| "loop_calls step ctx s (Suc n) =
     (case step ctx s of (x, s') \<Rightarrow>
        x # (if continues x then loop_calls step ctx s' n else []))"

text \<open>
  The invariant of the result type: a result with an error holds the zero value.
\<close>

definition result_inv :: "'a \<Rightarrow> ('a, 'e) result \<Rightarrow> bool" where
  "result_inv zero x = (Error x \<noteq> None \<longrightarrow> Value x = zero)"

subsection \<open>The channel\<close>

text \<open>
  Both channels are made without a buffer size (\<^verbatim>\<open>make(Result[T])\<close>,
  \<^verbatim>\<open>make(Sequence[T])\<close>), and every send is a plain send statement, outside any
  \<^verbatim>\<open>select\<close>. A send on a channel completes when the buffer has room or a receiver
  takes the value, so with \<open>n\<close> receives by the consumer the first
  \<open>capacity + n\<close> sends complete and the goroutine stays blocked at the next one.
  \<open>performed k tr\<close> is the part of its events \<open>tr\<close> the goroutine gets to perform
  when \<open>k\<close> sends can complete.
\<close>

definition capacity :: nat where
  "capacity = 0"

fun performed :: "nat \<Rightarrow> ('c, 'a, 'e) event list \<Rightarrow> ('c, 'a, 'e) event list" where
  "performed k [] = []"
| "performed k (Send x # es) = (case k of 0 \<Rightarrow> [] | Suc k' \<Rightarrow> Send x # performed k' es)"
| "performed k (e # es) = e # performed k es"

definition progress :: "nat \<Rightarrow> ('c, 'a, 'e) event list \<Rightarrow> ('c, 'a, 'e) event list" where
  "progress receives tr = performed (capacity + receives) tr"

subsection \<open>Example programs\<close>

text \<open>
  Scenario A: \<^verbatim>\<open>Do(ctx, () -> ("hi", nil))\<close>; an action that returns a value
  together with an error; an action that panics.
\<close>

definition hi_action :: "'c \<Rightarrow> (string \<times> string option) returned" where
  "hi_action ctx = Returns (''hi'', None)"

definition failing_action :: "'c \<Rightarrow> (string \<times> string option) returned" where
  "failing_action ctx = Returns (''partial'', Some ''boom'')"

definition crashing_action :: "'c \<Rightarrow> ('a \<times> 'e option) returned" where
  "crashing_action ctx = Panics"

text \<open>
  Scenario B: the closure increments a counter that starts at 0 and returns
  \<^verbatim>\<open>continue = (counter < 3)\<close>. Scenario C: the same, with an error on the second
  iteration. Two closures that panic: one on its first call, one on its second.
\<close>

definition counter_step :: "'c \<Rightarrow> nat \<Rightarrow> (int \<times> string option \<times> bool) returned \<times> nat" where
  "counter_step ctx v = (Returns (int (Suc v), None, Suc v < 3), Suc v)"

definition flaky_step :: "'c \<Rightarrow> nat \<Rightarrow> (int \<times> string option \<times> bool) returned \<times> nat" where
  "flaky_step ctx v =
     (Returns (int (Suc v), (if Suc v = 2 then Some ''boom'' else None), Suc v < 3), Suc v)"

definition crashing_step :: "'c \<Rightarrow> 's \<Rightarrow> ('a \<times> 'e option \<times> bool) returned \<times> 's" where
  "crashing_step ctx v = (Panics, v)"

definition late_crash_step :: "'c \<Rightarrow> nat \<Rightarrow> (int \<times> string option \<times> bool) returned \<times> nat" where
  "late_crash_step ctx v = (if v = 0 then Returns (1, None, True) else Panics, Suc v)"

text \<open>A closure that counts and always returns \<^verbatim>\<open>continue = true\<close>.\<close>

definition forever_step :: "'c \<Rightarrow> nat \<Rightarrow> (int \<times> string option \<times> bool) returned \<times> nat" where
  "forever_step ctx v = (Returns (int (Suc v), None, True), Suc v)"

section \<open>The loop of Stream, unfolded\<close>

lemma Stream_loop_Returns:
  assumes "step ctx s = (Returns t, s')"
  shows "Stream_loop zero ctx step s r =
           (if continue t then Stream_loop zero ctx step s' (r @ iteration zero ctx t)
            else Some (r @ iteration zero ctx t, Normal))"
  using assms
  by (cases t) (simp add: Stream_loop.simps [of zero ctx step s r] result_of_def)

lemma Stream_loop_Panics:
  assumes "step ctx s = (Panics, s')"
  shows "Stream_loop zero ctx step s r = Some (r @ [Call ctx], Panicked)"
  using assms by (simp add: Stream_loop.simps [of zero ctx step s r])

lemma Stream_loop_Goexits:
  assumes "step ctx s = (Goexits, s')"
  shows "Stream_loop zero ctx step s r = Some (r @ [Call ctx], Exited)"
  using assms by (simp add: Stream_loop.simps [of zero ctx step s r])

text \<open>Whatever the loop does, it first calls \<open>step\<close>.\<close>

lemma Stream_loop_extends_aux:
  assumes "Stream_loop zero ctx step s r = Some y"
  shows "\<exists>rest. fst y = r @ Call ctx # rest"
  using assms
proof (induction zero ctx step s r y
    rule: Stream_loop.raw_induct [rotated 1, consumes 1, case_names unfold])
  case (unfold loop zero ctx step s r y)
  show ?case
  proof (cases "step ctx s")
    case (Pair x s')
    show ?thesis
    proof (cases x)
      case Panics
      with Pair unfold(2) show ?thesis by auto
    next
      case Goexits
      with Pair unfold(2) show ?thesis by auto
    next
      case (Returns t)
      obtain v err nxt where t: "t = (v, err, nxt)" by (cases t)
      show ?thesis
      proof (cases nxt)
        case False
        with Pair Returns t unfold(2) show ?thesis by (auto split: if_splits)
      next
        case True
        with Pair Returns t unfold(2) obtain x where
          "loop zero ctx step s' (r @ [Call ctx, Send x]) = Some y"
          by (auto split: if_splits)
        from unfold(1) [OF this] show ?thesis by auto
      qed
    qed
  qed
qed

lemma Stream_loop_extends:
  assumes "Stream_loop zero ctx step s r = Some (tr, e)"
  shows "\<exists>rest. tr = r @ Call ctx # rest"
  using Stream_loop_extends_aux [OF assms] by simp

lemma step_calls_length [simp]: "length (step_calls step ctx s n) = n"
  by (induction n arbitrary: s) (auto split: prod.splits)

lemma step_calls_Suc_snoc:
  "step_calls step ctx s (Suc n) =
     step_calls step ctx s n @ [fst (step ctx (step_state step ctx s n))]"
proof (induction n arbitrary: s)
  case 0
  show ?case by (simp split: prod.splits)
next
  case (Suc n)
  obtain x s' where st: "step ctx s = (x, s')" by (cases "step ctx s")
  have "step_calls step ctx s (Suc (Suc n)) = x # step_calls step ctx s' (Suc n)"
    using st by simp
  also have "\<dots> = x # (step_calls step ctx s' n @ [fst (step ctx (step_state step ctx s' n))])"
    by (simp only: Suc.IH)
  also have "\<dots> = step_calls step ctx s (Suc n) @ [fst (step ctx (step_state step ctx s (Suc n)))]"
    using st by simp
  finally show ?case .
qed

text \<open>While the calls say continue, the loop goes on, one iteration per call.\<close>

lemma Stream_loop_run:
  assumes "step_calls step ctx s (length ts) = map Returns ts"
    and "\<forall>t \<in> set ts. continue t"
  shows "Stream_loop zero ctx step s r =
           Stream_loop zero ctx step (step_state step ctx s (length ts))
             (r @ concat (map (iteration zero ctx) ts))"
  using assms
proof (induction ts arbitrary: s r)
  case Nil
  show ?case by simp
next
  case (Cons t ts)
  obtain x s' where st: "step ctx s = (x, s')" by (cases "step ctx s")
  with Cons.prems(1) have x: "x = Returns t"
    and rest: "step_calls step ctx s' (length ts) = map Returns ts"
    by auto
  from Cons.prems(2) have ct: "continue t" and cts: "\<forall>t \<in> set ts. continue t"
    by auto
  have "Stream_loop zero ctx step s r = Stream_loop zero ctx step s' (r @ iteration zero ctx t)"
    using Stream_loop_Returns [of step ctx s t s' zero r] st x ct by simp
  also have "\<dots> = Stream_loop zero ctx step (step_state step ctx s' (length ts))
                    ((r @ iteration zero ctx t) @ concat (map (iteration zero ctx) ts))"
    by (rule Cons.IH [OF rest cts])
  finally show ?case using st by simp
qed

lemma Stream_loop_script:
  assumes "step_calls step ctx s (length ts) = map Returns ts"
    and "ts \<noteq> []"
    and "\<forall>t \<in> set (butlast ts). continue t"
    and "\<not> continue (last ts)"
  shows "Stream_loop zero ctx step s r =
           Some (r @ concat (map (iteration zero ctx) ts), Normal)"
proof -
  define us where "us = butlast ts"
  define t where "t = last ts"
  have ts: "ts = us @ [t]" using assms(2) by (simp add: us_def t_def)
  have n: "length ts = Suc (length us)" by (simp add: ts)
  from assms(1) have
    "step_calls step ctx s (length us) @ [fst (step ctx (step_state step ctx s (length us)))]
       = map Returns us @ [Returns t]"
    unfolding n step_calls_Suc_snoc by (simp add: ts)
  then have us: "step_calls step ctx s (length us) = map Returns us"
    and last: "fst (step ctx (step_state step ctx s (length us))) = Returns t"
    by simp_all
  from last obtain s' where
    st: "step ctx (step_state step ctx s (length us)) = (Returns t, s')"
    by (cases "step ctx (step_state step ctx s (length us))") simp
  have "Stream_loop zero ctx step s r =
          Stream_loop zero ctx step (step_state step ctx s (length us))
            (r @ concat (map (iteration zero ctx) us))"
    using Stream_loop_run [OF us] assms(3) by (simp add: us_def)
  also have "\<dots> = Some ((r @ concat (map (iteration zero ctx) us)) @ iteration zero ctx t, Normal)"
    using Stream_loop_Returns [where step = step and ctx = ctx, OF st] assms(4)
    by (simp add: t_def)
  finally show ?thesis by (simp add: ts)
qed

lemma Stream_loop_crash:
  assumes "step_calls step ctx s (Suc (length ts)) = map Returns ts @ [Panics]"
    and "\<forall>t \<in> set ts. continue t"
  shows "Stream_loop zero ctx step s r =
           Some (r @ concat (map (iteration zero ctx) ts) @ [Call ctx], Panicked)"
proof -
  from assms(1) have us: "step_calls step ctx s (length ts) = map Returns ts"
    and last: "fst (step ctx (step_state step ctx s (length ts))) = Panics"
    unfolding step_calls_Suc_snoc by simp_all
  from last obtain s' where
    st: "step ctx (step_state step ctx s (length ts)) = (Panics, s')"
    by (cases "step ctx (step_state step ctx s (length ts))") simp
  show ?thesis
    using Stream_loop_run [OF us assms(2)]
      Stream_loop_Panics [where step = step and ctx = ctx, OF st] by simp
qed


text \<open>
  A property of what has happened so far that every iteration and every call keeps
  holds of every run of the loop that ends.
\<close>

lemma Stream_loop_invariant:
  assumes "Stream_loop zero ctx step s r = Some y"
    and "I r"
    and "\<And>r t. I r \<Longrightarrow> I (r @ iteration zero ctx t)"
    and "\<And>r. I r \<Longrightarrow> I (r @ [Call ctx])"
  shows "I (fst y)"
  using assms
proof (induction zero ctx step s r y
    rule: Stream_loop.raw_induct [rotated 1, consumes 1, case_names unfold])
  case (unfold loop zero ctx step s r y)
  note body = unfold(2) and Ir = unfold(3) and it = unfold(4) and call = unfold(5)
  show ?case
  proof (cases "step ctx s")
    case (Pair x s')
    show ?thesis
    proof (cases x)
      case Panics
      with Pair body call [OF Ir] show ?thesis by auto
    next
      case Goexits
      with Pair body call [OF Ir] show ?thesis by auto
    next
      case (Returns t)
      obtain v err nxt where t: "t = (v, err, nxt)" by (cases t)
      have I': "I (r @ [Call ctx, Send (result_of zero v err)])"
        using it [OF Ir, of t] by (simp add: t)
      show ?thesis
      proof (cases nxt)
        case False
        with Pair Returns t body I' show ?thesis
          by (auto simp: result_of_def split: if_splits)
      next
        case True
        with Pair Returns t body
        have "loop zero ctx step s' (r @ [Call ctx, Send (result_of zero v err)]) = Some y"
          by (auto simp: result_of_def split: if_splits)
        from unfold(1) [OF this I' it call] show ?thesis by simp
      qed
    qed
  qed
qed

section \<open>Observations of a run\<close>

lemma sent_append [simp]: "sent (xs @ ys) = sent xs @ sent ys"
  by (induction xs rule: sent.induct) simp_all

lemma called_append [simp]: "called (xs @ ys) = called xs @ called ys"
  by (induction xs rule: called.induct) simp_all

lemma sent_iterations:
  "sent (concat (map (iteration zero ctx) ts)) = map (\<lambda>(v, err, next). result_of zero v err) ts"
  by (induction ts) auto

lemma called_iterations:
  "called (concat (map (iteration zero ctx) ts)) = replicate (length ts) ctx"
  by (induction ts) auto

lemma Close_notin_iteration [simp]: "Close \<notin> set (iteration zero ctx t)"
  by (cases t) simp

lemma Fault_notin_iteration [simp]: "Fault \<notin> set (iteration zero ctx t)"
  by (cases t) simp

lemma Error_result_of [simp]: "Error (result_of zero v err) = err"
  by (simp add: result_of_def fail_def success_def)

lemma Value_result_of [simp]: "Value (result_of zero v err) = (if err = None then v else zero)"
  by (simp add: result_of_def fail_def success_def)

lemma length_iterations:
  "length (concat (map (iteration zero ctx) ts)) = 2 * length ts"
  by (induction ts) auto

lemma length_iteration [simp]: "length (iteration zero ctx t) = 2"
  by (cases t) simp

lemma nth_iterations:
  assumes "i < length ts"
  shows "(concat (map (iteration zero ctx) ts) @ rest) ! (2 * i) = Call ctx
       \<and> (concat (map (iteration zero ctx) ts) @ rest) ! (2 * i + 1) =
           Send (case ts ! i of (v, err, next) \<Rightarrow> result_of zero v err)"
  using assms
proof (induction ts arbitrary: i)
  case Nil
  then show ?case by simp
next
  case (Cons t ts)
  obtain v err nxt where t: "t = (v, err, nxt)" by (cases t)
  show ?case
  proof (cases i)
    case 0
    then show ?thesis by (simp add: t)
  next
    case (Suc j)
    with Cons.prems have "j < length ts" by simp
    from Cons.IH [OF this] show ?thesis by (simp add: t Suc)
  qed
qed

lemma sent_deferred_close [simp]: "sent (deferred_close y) = sent (fst y)"
  by (cases y rule: deferred_close.cases) simp_all

lemma result_inv_result_of [simp]: "result_inv zero (result_of zero v err)"
  by (simp add: result_inv_def)

lemma Stream_loop_result_inv:
  fixes r :: "('c, 'a, 'e) event list"
  assumes "Stream_loop zero ctx step s r = Some y"
    and "\<forall>x \<in> set (sent r). result_inv zero x"
  shows "\<forall>x \<in> set (sent (fst y)). result_inv zero x"
proof (rule Stream_loop_invariant [OF assms(1), where I = "\<lambda>r. \<forall>x \<in> set (sent r). result_inv zero x"])
  show "\<forall>x \<in> set (sent r). result_inv zero x" by (rule assms(2))
next
  fix r' :: "('c, 'a, 'e) event list" and t
  assume "\<forall>x \<in> set (sent r'). result_inv zero x"
  then show "\<forall>x \<in> set (sent (r' @ iteration zero ctx t)). result_inv zero x"
    by (cases t) simp
next
  fix r' :: "('c, 'a, 'e) event list"
  assume "\<forall>x \<in> set (sent r'). result_inv zero x"
  then show "\<forall>x \<in> set (sent (r' @ [Call ctx])). result_inv zero x" by simp
qed

lemma channel_events_append [simp]:
  "channel_events (xs @ ys) = channel_events xs @ channel_events ys"
  by (simp add: channel_events_def)

lemma channel_events_deferred_close:
  "channel_events (deferred_close (tr, e)) = channel_events tr @ deferred_close ([], e)"
  by (cases e) (simp_all add: channel_events_def)

lemma called_deferred_close [simp]: "called (deferred_close y) = called (fst y)"
  by (cases y rule: deferred_close.cases) simp_all

lemma loop_calls_agree:
  assumes "\<forall>n. loop_calls step1 c1 s1 n = loop_calls step2 c2 s2 n"
    and "step1 c1 s1 = (x1, s1')" and "step2 c2 s2 = (x2, s2')"
  shows "x1 = x2"
    and "continues x1 \<Longrightarrow> \<forall>n. loop_calls step1 c1 s1' n = loop_calls step2 c2 s2' n"
proof -
  from assms(1) have "loop_calls step1 c1 s1 (Suc 0) = loop_calls step2 c2 s2 (Suc 0)" ..
  with assms(2,3) show x: "x1 = x2" by simp
  show "\<forall>n. loop_calls step1 c1 s1' n = loop_calls step2 c2 s2' n" if "continues x1"
  proof
    fix n
    from assms(1) have "loop_calls step1 c1 s1 (Suc n) = loop_calls step2 c2 s2 (Suc n)" ..
    with assms(2,3) x that show "loop_calls step1 c1 s1' n = loop_calls step2 c2 s2' n"
      by simp
  qed
qed

lemma Stream_loop_same_returns:
  assumes "Stream_loop zero c1 step1 s1 r1 = Some y"
    and "\<forall>n. loop_calls step1 c1 s1 n = loop_calls step2 c2 s2 n"
    and "channel_events r1 = channel_events r2"
  shows "\<exists>tr2. Stream_loop zero c2 step2 s2 r2 = Some (tr2, snd y)
           \<and> channel_events (fst y) = channel_events tr2"
  using assms
proof (induction zero c1 step1 s1 r1 y arbitrary: s2 r2
    rule: Stream_loop.raw_induct [rotated 1, consumes 1, case_names unfold])
  case (unfold loop zero c1 step1 s1 r1 y)
  note body = unfold(2) and agree = unfold(3) and r = unfold(4)
  obtain x1 s1' where st1: "step1 c1 s1 = (x1, s1')" by (cases "step1 c1 s1")
  obtain x2 s2' where st2: "step2 c2 s2 = (x2, s2')" by (cases "step2 c2 s2")
  note same = loop_calls_agree [OF agree st1 st2]
  show ?case
  proof (cases x1)
    case Panics
    with st1 body have y: "y = (r1 @ [Call c1], Panicked)" by simp
    from Panics same(1) st2 have "Stream_loop zero c2 step2 s2 r2 = Some (r2 @ [Call c2], Panicked)"
      using Stream_loop_Panics [of step2 c2 s2 s2' zero r2] by simp
    with y r show ?thesis by (simp add: channel_events_def)
  next
    case Goexits
    with st1 body have y: "y = (r1 @ [Call c1], Exited)" by simp
    from Goexits same(1) st2 have "Stream_loop zero c2 step2 s2 r2 = Some (r2 @ [Call c2], Exited)"
      using Stream_loop_Goexits [of step2 c2 s2 s2' zero r2] by simp
    with y r show ?thesis by (simp add: channel_events_def)
  next
    case (Returns t)
    obtain v err nxt where t: "t = (v, err, nxt)" by (cases t)
    let ?x = "Send (result_of zero v err)"
    have st2': "step2 c2 s2 = (Returns t, s2')" using st2 same(1) Returns by simp
    have r': "channel_events (r1 @ [Call c1, ?x]) = channel_events (r2 @ [Call c2, ?x])"
      using r by (simp add: channel_events_def)
    show ?thesis
    proof (cases nxt)
      case False
      with st1 Returns t body have y: "y = (r1 @ [Call c1, ?x], Normal)"
        by (auto simp: result_of_def split: if_splits)
      from False t have "Stream_loop zero c2 step2 s2 r2 = Some (r2 @ [Call c2, ?x], Normal)"
        using Stream_loop_Returns [where step = step2 and ctx = c2, OF st2', of zero r2] by simp
      with y r' show ?thesis by simp
    next
      case True
      with st1 Returns t body have "loop zero c1 step1 s1' (r1 @ [Call c1, ?x]) = Some y"
        by (auto simp: result_of_def split: if_splits)
      moreover from True Returns t have "continues x1" by simp
      from same(2) [OF this]
      have "\<forall>n. loop_calls step1 c1 s1' n = loop_calls step2 c2 s2' n" .
      ultimately have "\<exists>tr2. Stream_loop zero c2 step2 s2' (r2 @ [Call c2, ?x]) = Some (tr2, snd y)
           \<and> channel_events (fst y) = channel_events tr2"
        using r' by (rule unfold(1))
      moreover from True t have "Stream_loop zero c2 step2 s2 r2 =
          Stream_loop zero c2 step2 s2' (r2 @ [Call c2, ?x])"
        using Stream_loop_Returns [where step = step2 and ctx = c2, OF st2', of zero r2] by simp
      ultimately show ?thesis by simp
    qed
  qed
qed

lemma Stream_same_returns:
  assumes "\<forall>n. loop_calls step1 c1 s1 n = loop_calls step2 c2 s2 n"
    and "Stream zero c1 step1 s1 = Some tr"
  shows "\<exists>tr2. Stream zero c2 step2 s2 = Some tr2 \<and> channel_events tr = channel_events tr2"
proof -
  from assms(2) obtain tr1 e where loop: "Stream_loop zero c1 step1 s1 [] = Some (tr1, e)"
    and tr: "tr = deferred_close (tr1, e)"
    by (auto simp: Stream_def)
  from Stream_loop_same_returns [OF loop assms(1), of "[]"]
  obtain tr2 where "Stream_loop zero c2 step2 s2 [] = Some (tr2, e)"
    and "channel_events tr1 = channel_events tr2"
    by auto
  then show ?thesis
    by (simp add: Stream_def tr channel_events_deferred_close)
qed

lemma Stream_loop_called:
  fixes r :: "('c, 'a, 'e) event list"
  assumes "Stream_loop zero ctx step s r = Some y"
    and "set (called r) \<subseteq> {ctx}"
  shows "set (called (fst y)) \<subseteq> {ctx}"
proof (rule Stream_loop_invariant [OF assms(1), where I = "\<lambda>r. set (called r) \<subseteq> {ctx}"])
  show "set (called r) \<subseteq> {ctx}" by (rule assms(2))
next
  fix r' :: "('c, 'a, 'e) event list" and t
  assume "set (called r') \<subseteq> {ctx}"
  then show "set (called (r' @ iteration zero ctx t)) \<subseteq> {ctx}"
    by (cases t) simp
next
  fix r' :: "('c, 'a, 'e) event list"
  assume "set (called r') \<subseteq> {ctx}"
  then show "set (called (r' @ [Call ctx])) \<subseteq> {ctx}" by simp
qed

lemma counter_step_ignores_ctx:
  "loop_calls counter_step c s n = loop_calls counter_step d s n"
  by (induction n arbitrary: s) (simp_all add: counter_step_def)

section \<open>The loop of Stream, pass by pass\<close>

lemma Stream_prefix_Returns:
  assumes "step ctx s = (Returns t, s')"
  shows "Stream_prefix (Suc n) zero ctx step s r =
           (if continue t then Stream_prefix n zero ctx step s' (r @ iteration zero ctx t)
            else (r @ iteration zero ctx t, Some Normal))"
  using assms by (cases t) (simp add: result_of_def)

lemma Stream_prefix_extends: "\<exists>rest. fst (Stream_prefix n zero ctx step s r) = r @ rest"
proof (induction n arbitrary: s r)
  case 0
  show ?case by simp
next
  case (Suc n)
  obtain x s' where st: "step ctx s = (x, s')" by (cases "step ctx s")
  show ?case
  proof (cases x)
    case Panics
    with st show ?thesis by simp
  next
    case Goexits
    with st show ?thesis by simp
  next
    case (Returns t)
    from Suc.IH [of s' "r @ iteration zero ctx t"]
    obtain rest where "fst (Stream_prefix n zero ctx step s' (r @ iteration zero ctx t))
        = (r @ iteration zero ctx t) @ rest" ..
    with Stream_prefix_Returns [of step ctx s t s' n zero r] st Returns
    show ?thesis by (cases "continue t") simp_all
  qed
qed

text \<open>The bounded loop and the loop agree on every run that ends.\<close>

lemma Stream_prefix_ended:
  assumes "Stream_prefix n zero ctx step s r = (tr, Some e)"
  shows "Stream_loop zero ctx step s r = Some (tr, e)"
  using assms
proof (induction n arbitrary: s r)
  case 0
  then show ?case by simp
next
  case (Suc n)
  obtain x s' where st: "step ctx s = (x, s')" by (cases "step ctx s")
  show ?case
  proof (cases x)
    case Panics
    with st Suc.prems Stream_loop_Panics [of step ctx s s' zero r] show ?thesis by simp
  next
    case Goexits
    with st Suc.prems Stream_loop_Goexits [of step ctx s s' zero r] show ?thesis by simp
  next
    case (Returns t)
    note pre = Stream_prefix_Returns [of step ctx s t s' n zero r]
      and loop = Stream_loop_Returns [of step ctx s t s' zero r]
    show ?thesis
    proof (cases "continue t")
      case True
      with pre st Returns Suc.prems
      have "Stream_prefix n zero ctx step s' (r @ iteration zero ctx t) = (tr, Some e)" by simp
      from Suc.IH [OF this] loop st Returns True show ?thesis by simp
    next
      case False
      with pre loop st Returns Suc.prems show ?thesis by simp
    qed
  qed
qed

lemma Stream_loop_ended:
  assumes "Stream_loop zero ctx step s r = Some y"
  shows "\<exists>n. Stream_prefix n zero ctx step s r = (fst y, Some (snd y))"
  using assms
proof (induction zero ctx step s r y
    rule: Stream_loop.raw_induct [rotated 1, consumes 1, case_names unfold])
  case (unfold loop zero ctx step s r y)
  note body = unfold(2)
  obtain x s' where st: "step ctx s = (x, s')" by (cases "step ctx s")
  show ?case
  proof (cases x)
    case Panics
    with st body have "Stream_prefix (Suc 0) zero ctx step s r = (fst y, Some (snd y))" by auto
    then show ?thesis ..
  next
    case Goexits
    with st body have "Stream_prefix (Suc 0) zero ctx step s r = (fst y, Some (snd y))" by auto
    then show ?thesis ..
  next
    case (Returns t)
    obtain v err nxt where t: "t = (v, err, nxt)" by (cases t)
    show ?thesis
    proof (cases nxt)
      case False
      with st Returns t body
      have "Stream_prefix (Suc 0) zero ctx step s r = (fst y, Some (snd y))"
        by (auto split: if_splits)
      then show ?thesis ..
    next
      case True
      with st Returns t body
      have "loop zero ctx step s' (r @ iteration zero ctx t) = Some y"
        by (auto simp: result_of_def split: if_splits)
      from unfold(1) [OF this] obtain n where
        "Stream_prefix n zero ctx step s' (r @ iteration zero ctx t) = (fst y, Some (snd y))" ..
      with Stream_prefix_Returns [of step ctx s t s' n zero r] st Returns t True
      have "Stream_prefix (Suc n) zero ctx step s r = (fst y, Some (snd y))" by simp
      then show ?thesis ..
    qed
  qed
qed

lemma Stream_events_prefix:
  "\<exists>rest. Stream_events n zero ctx step s = fst (Stream_prefix n zero ctx step s []) @ rest"
proof (cases "Stream_prefix n zero ctx step s []")
  case (Pair r e)
  show ?thesis
  proof (cases e)
    case None
    with Pair show ?thesis by (simp add: Stream_events_def)
  next
    case (Some e')
    with Pair show ?thesis by (cases e') (simp_all add: Stream_events_def)
  qed
qed

lemma Stream_ended:
  assumes "Stream zero ctx step s = Some tr"
  shows "\<exists>n. tr = Stream_events (Suc n) zero ctx step s"
proof -
  from assms obtain y where y: "Stream_loop zero ctx step s [] = Some y"
    and tr: "tr = deferred_close y"
    by (auto simp: Stream_def)
  from Stream_loop_ended [OF y] obtain m where
    m: "Stream_prefix m zero ctx step s [] = (fst y, Some (snd y))" ..
  then have "tr = Stream_events m zero ctx step s"
    by (simp add: Stream_events_def tr)
  moreover from m obtain n where "m = Suc n" by (cases m) auto
  ultimately show ?thesis by auto
qed

lemma Stream_events_first:
  "(fst (step ctx s) = Panics \<longrightarrow> Stream_events (Suc n) zero ctx step s = [Call ctx, Close, Fault])
   \<and> (fst (step ctx s) = Goexits \<longrightarrow> Stream_events (Suc n) zero ctx step s = [Call ctx, Close])
   \<and> (\<forall>t. fst (step ctx s) = Returns t \<longrightarrow>
        (\<exists>rest. Stream_events (Suc n) zero ctx step s = iteration zero ctx t @ rest))"
proof -
  obtain x s' where st: "step ctx s = (x, s')" by (cases "step ctx s")
  show ?thesis
  proof (cases x)
    case Panics
    with st show ?thesis by (simp add: Stream_events_def)
  next
    case Goexits
    with st show ?thesis by (simp add: Stream_events_def)
  next
    case (Returns t)
    from Stream_events_prefix [of "Suc n" zero ctx step s] obtain rest where
      ev: "Stream_events (Suc n) zero ctx step s =
             fst (Stream_prefix (Suc n) zero ctx step s []) @ rest" ..
    from Stream_prefix_extends [of n zero ctx step s' "iteration zero ctx t"] obtain rest' where
      "fst (Stream_prefix n zero ctx step s' (iteration zero ctx t)) = iteration zero ctx t @ rest'" ..
    with Stream_prefix_Returns [of step ctx s t s' n zero "[]"] st Returns
    have "\<exists>rest''. fst (Stream_prefix (Suc n) zero ctx step s []) = iteration zero ctx t @ rest''"
      by (cases "continue t") simp_all
    with ev st Returns show ?thesis by auto
  qed
qed

lemma last_deferred_close: "last (deferred_close y) = Close \<or> last (deferred_close y) = Fault"
  by (cases y rule: deferred_close.cases) simp_all

lemma forever_step_runs: "snd (Stream_prefix n zero ctx forever_step s r) = None"
  by (induction n arbitrary: s r) (simp_all add: forever_step_def)

lemma Stream_forever_step: "Stream zero ctx forever_step s = None"
proof (cases "Stream_loop zero ctx forever_step s []")
  case None
  then show ?thesis by (simp add: Stream_def)
next
  case (Some y)
  from Stream_loop_ended [OF this] forever_step_runs [of _ zero ctx s "[]"]
  show ?thesis by (auto dest: arg_cong [where f = snd])
qed

section \<open>Do\<close>

text \<open>
  C1. When the action returns a value \<open>v\<close> and a nil error, the goroutine of \<open>Do\<close>
  calls the action once, sends exactly one result, which has the value \<open>v\<close> and no
  error, and then closes the channel: nothing is sent after that.
\<close>

theorem Do_success:
  assumes "action ctx = Returns (v, None)"
  shows "Do zero ctx action = [Call ctx, Send \<lparr>Value = v, Error = None\<rparr>, Close]
       \<and> sent (Do zero ctx action) = [\<lparr>Value = v, Error = None\<rparr>]
       \<and> called (Do zero ctx action) = [ctx]
       \<and> last (Do zero ctx action) = Close"
  using assms by (simp add: Do_def Do_body_def success_def)

theorem Do_success_witness:
  "Do [] (0::nat) hi_action = [Call 0, Send \<lparr>Value = ''hi'', Error = None\<rparr>, Close]"
  using Do_success [of hi_action "0::nat" "''hi''" "[]"] by (simp add: hi_action_def)

text \<open>
  C4. When the action returns a non-nil error, the goroutine of \<open>Do\<close> sends exactly
  one result, which carries that error and the zero value of \<open>T\<close> (the value the
  action returned beside the error is dropped), and then closes the channel.
\<close>

theorem Do_failure:
  assumes "action ctx = Returns (v, Some e)"
  shows "Do zero ctx action = [Call ctx, Send \<lparr>Value = zero, Error = Some e\<rparr>, Close]
       \<and> sent (Do zero ctx action) = [\<lparr>Value = zero, Error = Some e\<rparr>]"
  using assms by (simp add: Do_def Do_body_def fail_def)

theorem Do_failure_witness:
  "Do [] (0::nat) failing_action = [Call 0, Send \<lparr>Value = [], Error = Some ''boom''\<rparr>, Close]"
  using Do_failure [of failing_action "0::nat" "''partial''" "''boom''" "[]"]
  by (simp add: failing_action_def)

section \<open>Stream\<close>

text \<open>
  C2. When the calls of \<open>step\<close> return the tuples \<open>ts\<close>, \<open>n\<close> of them, all but the last
  with \<open>continue = true\<close> and the last with \<open>continue = false\<close>, the goroutine of
  \<open>Stream\<close> ends, and its run is \<open>n\<close> iterations, each a call of \<open>step\<close> followed by
  the send of that call's result, and then the close. So it sends exactly \<open>n\<close>
  results, in the order of the calls, the \<open>i\<close>-th with the error of the \<open>i\<close>-th
  tuple (with the tuple's value when the error is nil, whatever \<open>continue\<close> was), it
  calls \<open>step\<close> exactly \<open>n\<close> times, and the close is its last event.
\<close>

theorem Stream_script:
  assumes "step_calls step ctx s (length ts) = map Returns ts"
    and "ts \<noteq> []"
    and "\<forall>i. i < length ts - 1 \<longrightarrow> continue (ts ! i)"
    and "\<not> continue (last ts)"
  shows "\<exists>tr. Stream zero ctx step s = Some tr
       \<and> tr = concat (map (iteration zero ctx) ts) @ [Close]
       \<and> length (sent tr) = length ts
       \<and> map Error (sent tr) = map (\<lambda>(v, err, next). err) ts
       \<and> map Value (sent tr) = map (\<lambda>(v, err, next). if err = None then v else zero) ts
       \<and> called tr = replicate (length ts) ctx
       \<and> last tr = Close \<and> Close \<notin> set (butlast tr) \<and> Fault \<notin> set tr"
proof -
  have "\<forall>t \<in> set (butlast ts). continue t"
  proof
    fix t assume "t \<in> set (butlast ts)"
    then obtain i where "i < length (butlast ts)" and "butlast ts ! i = t"
      by (auto simp: in_set_conv_nth)
    with assms(3) show "continue t" by (auto simp: nth_butlast)
  qed
  from Stream_loop_script [OF assms(1,2) this assms(4)]
  have "Stream zero ctx step s = Some (concat (map (iteration zero ctx) ts) @ [Close])"
    by (simp add: Stream_def)
  then show ?thesis
    by (simp add: sent_iterations called_iterations comp_def split_def)
qed

theorem Stream_script_witness:
  "Stream 0 (0::nat) counter_step 0 =
     Some [Call 0, Send \<lparr>Value = 1, Error = None\<rparr>,
           Call 0, Send \<lparr>Value = 2, Error = None\<rparr>,
           Call 0, Send \<lparr>Value = 3, Error = None\<rparr>, Close]"
  using Stream_script [of counter_step "0::nat" 0
      "[(1, None, True), (2, None, True), (3, None, False)]" 0]
  by (simp add: counter_step_def result_of_def success_def less_Suc_eq nth_Cons')

text \<open>
  C3. An iteration whose call returned \<open>(v, err, next)\<close> sends its result, and then
  the loop stops exactly when \<open>next\<close> is false, whatever \<open>err\<close> is: with
  \<open>next = true\<close> the loop goes on from the state the call left, also after a
  result with an error, and every run that ends has a further call of \<open>step\<close>
  right after that send.
\<close>

theorem Stream_continue_decides:
  assumes "step ctx s = (Returns (v, err, next), s')"
  shows "((Stream_loop zero ctx step s r =
            Some (r @ [Call ctx, Send (result_of zero v err)], Normal)) = (\<not> next))
       \<and> (next \<longrightarrow>
            Stream_loop zero ctx step s r =
              Stream_loop zero ctx step s' (r @ [Call ctx, Send (result_of zero v err)]))
       \<and> (next \<longrightarrow> (\<forall>tr e. Stream_loop zero ctx step s r = Some (tr, e) \<longrightarrow>
            (\<exists>rest. tr = r @ [Call ctx, Send (result_of zero v err), Call ctx] @ rest)))"
proof -
  let ?r' = "r @ [Call ctx, Send (result_of zero v err)]"
  have eq: "Stream_loop zero ctx step s r =
          (if next then Stream_loop zero ctx step s' ?r' else Some (?r', Normal))"
    using Stream_loop_Returns [where step = step and ctx = ctx, OF assms, of zero r] by simp
  have ext: "\<exists>rest. tr = ?r' @ Call ctx # rest"
    if "Stream_loop zero ctx step s' ?r' = Some (tr, e)" for tr e
    using Stream_loop_extends [OF that] .
  have "Stream_loop zero ctx step s r \<noteq> Some (?r', Normal)" if "next"
  proof
    assume "Stream_loop zero ctx step s r = Some (?r', Normal)"
    with eq that have "Stream_loop zero ctx step s' ?r' = Some (?r', Normal)" by simp
    from ext [OF this] show False by simp
  qed
  moreover have "Stream_loop zero ctx step s r = Some (?r', Normal)" if "\<not> next"
    using eq that by simp
  moreover have "\<exists>rest. tr = r @ [Call ctx, Send (result_of zero v err), Call ctx] @ rest"
    if "next" and "Stream_loop zero ctx step s r = Some (tr, e)" for tr e
  proof -
    from that eq have "Stream_loop zero ctx step s' ?r' = Some (tr, e)" by simp
    from ext [OF this] show ?thesis by simp
  qed
  ultimately show ?thesis using eq by auto
qed

theorem Stream_continue_decides_witness:
  "Stream_loop 0 (0::nat) flaky_step 1 [Call 0, Send \<lparr>Value = 1, Error = None\<rparr>] =
     Some ([Call 0, Send \<lparr>Value = 1, Error = None\<rparr>,
            Call 0, Send \<lparr>Value = 0, Error = Some ''boom''\<rparr>,
            Call 0, Send \<lparr>Value = 3, Error = None\<rparr>], Normal)"
proof -
  have "Stream_loop 0 (0::nat) flaky_step 1 [Call 0, Send \<lparr>Value = 1, Error = None\<rparr>] =
     Stream_loop 0 0 flaky_step 2
       [Call 0, Send \<lparr>Value = 1, Error = None\<rparr>, Call 0, Send \<lparr>Value = 0, Error = Some ''boom''\<rparr>]"
    using Stream_continue_decides [of flaky_step "0::nat" 1 2 "Some ''boom''" True 2 0
        "[Call 0, Send \<lparr>Value = 1, Error = None\<rparr>]"]
    by (simp add: flaky_step_def result_of_def fail_def)
  also have "\<dots> = Some ([Call 0, Send \<lparr>Value = 1, Error = None\<rparr>,
            Call 0, Send \<lparr>Value = 0, Error = Some ''boom''\<rparr>,
            Call 0, Send \<lparr>Value = 3, Error = None\<rparr>], Normal)"
    using Stream_loop_Returns [of flaky_step "0::nat" 2 "(3, None, False)" 3 0]
    by (simp add: flaky_step_def result_of_def success_def)
  finally show ?thesis .
qed


text \<open>
  C5. In a run of \<open>Stream\<close> whose calls return the tuples \<open>ts\<close> (all but the last with
  \<open>continue = true\<close>), the events come in threes: the \<open>i\<close>-th call of \<open>step\<close>, then
  the send of that call's result, and only then what the continuation flag of that
  call decides, a further call when it is true and the close when it is false. So
  the result of the last iteration, the one with \<open>continue = false\<close>, is sent
  before the channel is closed.
\<close>

theorem Stream_send_before_continue:
  assumes "step_calls step ctx s (length ts) = map Returns ts"
    and "ts \<noteq> []"
    and "\<forall>i. i < length ts - 1 \<longrightarrow> continue (ts ! i)"
    and "\<not> continue (last ts)"
  shows "\<exists>tr. Stream zero ctx step s = Some tr
       \<and> length tr = 2 * length ts + 1
       \<and> (\<forall>i. i < length ts \<longrightarrow>
             tr ! (2 * i) = Call ctx
           \<and> tr ! (2 * i + 1) = Send (case ts ! i of (v, err, next) \<Rightarrow> result_of zero v err)
           \<and> tr ! (2 * i + 2) = (if continue (ts ! i) then Call ctx else Close))"
proof -
  let ?tr = "concat (map (iteration zero ctx) ts) @ [Close]"
  have "\<forall>t \<in> set (butlast ts). continue t"
  proof
    fix t assume "t \<in> set (butlast ts)"
    then obtain i where "i < length (butlast ts)" and "butlast ts ! i = t"
      by (auto simp: in_set_conv_nth)
    with assms(3) show "continue t" by (auto simp: nth_butlast)
  qed
  from Stream_loop_script [OF assms(1,2) this assms(4)]
  have run: "Stream zero ctx step s = Some ?tr"
    by (simp add: Stream_def)
  have len: "length ?tr = 2 * length ts + 1"
    by (simp add: length_iterations)
  have "?tr ! (2 * i + 2) = (if continue (ts ! i) then Call ctx else Close)"
    if i: "i < length ts" for i
  proof (cases "i < length ts - 1")
    case True
    then have "Suc i < length ts" by simp
    from nth_iterations [OF this, of zero ctx "[Close]"] True assms(3)
    show ?thesis by simp
  next
    case False
    with i have eq: "i = length ts - 1" by simp
    with assms(2,4) have "\<not> continue (ts ! i)" by (simp add: last_conv_nth)
    moreover have "2 * i + 2 = length (concat (map (iteration zero ctx) ts))"
      using eq assms(2) by (cases ts) (simp_all add: length_iterations)
    then have "?tr ! (2 * i + 2) = Close"
      by (simp only: nth_append_length)
    ultimately show ?thesis by simp
  qed
  with run len nth_iterations [of _ ts zero ctx "[Close]"] show ?thesis
    by (intro exI [of _ ?tr]) simp
qed

theorem Stream_send_before_continue_witness:
  "\<exists>tr. Stream 0 (0::nat) flaky_step 0 = Some tr
     \<and> tr ! 2 = Call 0
     \<and> tr ! 3 = Send \<lparr>Value = 0, Error = Some ''boom''\<rparr>
     \<and> tr ! 4 = Call 0
     \<and> tr ! 5 = Send \<lparr>Value = 3, Error = None\<rparr>
     \<and> tr ! 6 = Close"
proof -
  let ?ts = "[(1, None, True), (2, Some ''boom'', True), (3, None, False)]
               :: (int \<times> string option \<times> bool) list"
  have h1: "step_calls flaky_step (0::nat) 0 (length ?ts) = map Returns ?ts"
    by (simp add: flaky_step_def)
  have h2: "?ts \<noteq> []" by simp
  have h3: "\<forall>i. i < length ?ts - 1 \<longrightarrow> continue (?ts ! i)"
    by (simp add: less_Suc_eq)
  have h4: "\<not> continue (last ?ts)" by simp
  from Stream_send_before_continue [OF h1 h2 h3 h4, of 0]
  obtain tr where tr: "Stream 0 (0::nat) flaky_step 0 = Some tr"
    and nth: "\<forall>i. i < length ?ts \<longrightarrow>
             tr ! (2 * i) = Call 0
           \<and> tr ! (2 * i + 1) = Send (case ?ts ! i of (v, err, next) \<Rightarrow> result_of 0 v err)
           \<and> tr ! (2 * i + 2) = (if continue (?ts ! i) then Call 0 else Close)"
    by blast
  from nth [rule_format, of 1] nth [rule_format, of 2] tr show ?thesis
    by (simp add: result_of_def fail_def success_def)
qed


section \<open>The result invariant\<close>

text \<open>
  C6. \<open>success\<close> builds a result with the value it is given and a nil error;
  \<open>fail\<close> builds a result with the error it is given and the zero value of \<open>T\<close>.
  So every result either constructor builds, and with them every result the
  goroutine of \<open>Do\<close> sends and every result a run of \<open>Stream\<close> sends, satisfies the
  invariant: when its error is set, its value is the zero value.
\<close>

theorem result_invariant:
  "Value (success v :: ('a, 'e) result) = v \<and> Error (success v :: ('a, 'e) result) = None
   \<and> Value (fail zero err :: ('a, 'e) result) = zero \<and> Error (fail zero err) = err
   \<and> result_inv zero (success v :: ('a, 'e) result)
   \<and> result_inv zero (fail zero err)
   \<and> (\<forall>x \<in> set (sent (Do zero ctx action)). result_inv zero (x :: ('a, 'e) result))
   \<and> (\<forall>tr. Stream zero ctx step s = Some tr \<longrightarrow>
         (\<forall>x \<in> set (sent tr). result_inv zero (x :: ('a, 'e) result)))"
proof -
  have "\<forall>x \<in> set (sent (Do zero ctx action)). result_inv zero x"
    by (simp add: Do_def Do_body_def result_inv_def fail_def success_def
        split: returned.splits prod.splits)
  moreover have "\<forall>x \<in> set (sent tr). result_inv zero x"
    if "Stream zero ctx step s = Some tr" for tr
  proof -
    from that obtain y where y: "Stream_loop zero ctx step s [] = Some y"
      and tr: "tr = deferred_close y"
      by (auto simp: Stream_def)
    from Stream_loop_result_inv [OF y] show ?thesis by (simp add: tr)
  qed
  ultimately show ?thesis
    by (simp add: result_inv_def fail_def success_def)
qed

theorem result_invariant_witness:
  "result_inv ([]::string) \<lparr>Value = [], Error = Some ''boom''\<rparr>
   \<and> result_inv (0::int) \<lparr>Value = 3, Error = None :: string option\<rparr>
   \<and> Value (success (3::int) :: (int, string) result) = 3
   \<and> Value (fail (0::int) (Some ''boom'')) = 0"
proof -
  have run: "Stream 0 (0::nat) counter_step 0 =
     Some [Call 0, Send \<lparr>Value = 1, Error = None\<rparr>,
           Call 0, Send \<lparr>Value = 2, Error = None\<rparr>,
           Call 0, Send \<lparr>Value = 3, Error = None\<rparr>, Close]"
    using Stream_loop_script [of counter_step "0::nat" 0
      "[(1, None, True), (2, None, True), (3, None, False)]" 0 "[]"]
    by (simp add: Stream_def counter_step_def result_of_def success_def)
  from result_invariant [of 3 0 "Some ''boom''" "0::nat" crashing_action counter_step 0]
    result_invariant [of "''hi''" "[]" "Some ''boom''" "0::nat" failing_action crashing_step "0::nat"]
  show ?thesis
    by (simp add: run Do_def Do_body_def failing_action_def fail_def)
qed

section \<open>Panics\<close>

text \<open>
  C7, as the claim states it, fails: when the action panics, the deferred
  \<^verbatim>\<open>close(r)\<close> still runs, so the channel is closed.
\<close>

theorem panic_closes_channel_counterexample:
  "(crashing_action (0::nat) :: (string \<times> string option) returned) = Panics
   \<and> Close \<in> set (Do ([]::string) (0::nat) (crashing_action :: nat \<Rightarrow> (string \<times> string option) returned))"
  by (simp add: crashing_action_def Do_def Do_body_def)

text \<open>
  C7, amended. When the action of \<open>Do\<close> panics, the goroutine sends no result: the
  deferred close runs and then the panic, which nothing recovers, takes the
  process down. When a call of \<open>step\<close> panics after the calls before it returned
  the tuples \<open>ts\<close>, all with \<open>continue = true\<close>, the run of \<open>Stream\<close> is the
  iterations of \<open>ts\<close>, the panicking call, the deferred close and the fault: the
  results sent are those of \<open>ts\<close> and there is none for the panicking call.
\<close>

theorem panic_propagates:
  "(action ctx = Panics \<longrightarrow> Do zero ctx action = [Call ctx, Close, Fault])
   \<and> (step_calls step ctx s (Suc (length ts)) = map Returns ts @ [Panics]
        \<and> (\<forall>t \<in> set ts. continue t) \<longrightarrow>
       Stream zero ctx step s = Some (concat (map (iteration zero ctx) ts) @ [Call ctx, Close, Fault])
        \<and> map_option sent (Stream zero ctx step s) =
            Some (map (\<lambda>(v, err, next). result_of zero v err) ts))"
proof -
  have "Do zero ctx action = [Call ctx, Close, Fault]" if "action ctx = Panics"
    using that by (simp add: Do_def Do_body_def)
  moreover have
    "Stream zero ctx step s = Some (concat (map (iteration zero ctx) ts) @ [Call ctx, Close, Fault])"
    if "step_calls step ctx s (Suc (length ts)) = map Returns ts @ [Panics]"
      and "\<forall>t \<in> set ts. continue t"
    using Stream_loop_crash [OF that, of zero "[]"] by (simp add: Stream_def)
  ultimately show ?thesis by (simp add: sent_iterations)
qed

theorem panic_propagates_witness:
  "Do (0::int) (0::nat) (crashing_action :: nat \<Rightarrow> (int \<times> string option) returned)
     = [Call 0, Close, Fault]
   \<and> Stream 0 (0::nat) late_crash_step 0 =
       Some [Call 0, Send \<lparr>Value = 1, Error = None\<rparr>, Call 0, Close, Fault]"
  using panic_propagates [of "crashing_action :: nat \<Rightarrow> (int \<times> string option) returned"
      "0::nat" "0::int" late_crash_step "0::nat" "[(1, None, True)]"]
  by (simp add: crashing_action_def late_crash_step_def result_of_def success_def)

section \<open>The first iteration of Stream\<close>

text \<open>
  C10, as the claim states it, fails: when the first call of \<open>step\<close> panics, the
  deferred close runs and the channel is closed with no result sent.
\<close>

theorem Stream_zero_results_counterexample:
  "Stream (0::int) (0::nat) crashing_step (0::nat) =
     Some [Call 0, Close, Fault :: (nat, int, string) event]
   \<and> map_option sent (Stream (0::int) (0::nat) crashing_step (0::nat)) =
     Some ([] :: (int, string) result list)"
  using Stream_loop_Panics [of
      "crashing_step :: nat \<Rightarrow> nat \<Rightarrow> (int \<times> string option \<times> bool) returned \<times> nat"
      "0::nat" "0::nat" 0 "0::int" "[]"]
  by (simp add: Stream_def crashing_step_def)

text \<open>
  C10, amended. The goroutine of \<open>Stream\<close> starts with a call of \<open>step\<close>, whether
  its loop ever ends or not: within any number of passes through the loop body, at
  least one, its first event is that call. When that first call returns
  \<open>(v, err, next)\<close>, the second event is the send of its result, so the result is
  delivered before the continuation flag is looked at and before any close. The
  channel is closed with no result sent only when the first call of \<open>step\<close> does
  not return: when it panics the run is the call, the deferred close and the fault,
  and when it ends the goroutine with \<^verbatim>\<open>runtime.Goexit\<close> the run is the call and the
  deferred close. Every run that ends is the events of some number of passes, and
  the other way round.
\<close>

theorem Stream_first_iteration:
  "(\<exists>rest. Stream_events (Suc n) zero ctx step s = Call ctx # rest)
   \<and> (\<forall>v err next. fst (step ctx s) = Returns (v, err, next) \<longrightarrow>
        (\<exists>rest. Stream_events (Suc n) zero ctx step s =
                  Call ctx # Send (result_of zero v err) # rest))
   \<and> (Close \<in> set (Stream_events n zero ctx step s)
        \<and> sent (Stream_events n zero ctx step s) = [] \<longrightarrow>
        (\<forall>t. fst (step ctx s) \<noteq> Returns t))
   \<and> (\<forall>tr. Stream zero ctx step s = Some tr \<longrightarrow>
        (\<exists>m. tr = Stream_events m zero ctx step s)
        \<and> (\<exists>rest. tr = Call ctx # rest)
        \<and> (\<forall>v err next. fst (step ctx s) = Returns (v, err, next) \<longrightarrow>
             (\<exists>rest. tr = Call ctx # Send (result_of zero v err) # rest \<and> rest \<noteq> []))
        \<and> (sent tr = [] \<longrightarrow> (\<forall>t. fst (step ctx s) \<noteq> Returns t)))
   \<and> (snd (Stream_prefix n zero ctx step s []) \<noteq> None \<longrightarrow>
        Stream zero ctx step s = Some (Stream_events n zero ctx step s))
   \<and> (fst (step ctx s) = Panics \<longrightarrow> Stream zero ctx step s = Some [Call ctx, Close, Fault])
   \<and> (fst (step ctx s) = Goexits \<longrightarrow> Stream zero ctx step s = Some [Call ctx, Close])"
proof -
  note first = Stream_events_first [of step ctx s _ zero]
  have bounded: "Stream zero ctx step s = Some (Stream_events n zero ctx step s)"
    if "snd (Stream_prefix n zero ctx step s []) \<noteq> None"
  proof -
    from that obtain tr e where pre: "Stream_prefix n zero ctx step s [] = (tr, Some e)"
      by (cases "Stream_prefix n zero ctx step s []") auto
    from Stream_prefix_ended [OF this] pre show ?thesis
      by (simp add: Stream_def Stream_events_def)
  qed
  have starts: "\<exists>rest. Stream_events (Suc k) zero ctx step s = Call ctx # rest" for k
  proof (cases "fst (step ctx s)")
    case (Returns t)
    with first [of k] show ?thesis by (cases t) auto
  next
    case Panics
    with first [of k] show ?thesis by simp
  next
    case Goexits
    with first [of k] show ?thesis by simp
  qed
  have sends: "\<exists>rest. Stream_events (Suc k) zero ctx step s =
                  Call ctx # Send (result_of zero v err) # rest"
    if "fst (step ctx s) = Returns (v, err, next)" for k v err "next"
    using first [of k] that by auto
  have zero_results: "\<forall>t. fst (step ctx s) \<noteq> Returns t"
    if "sent (Stream_events (Suc k) zero ctx step s) = []" for k
  proof (intro allI notI)
    fix t assume "fst (step ctx s) = Returns t"
    with first [of k] obtain rest where
      "Stream_events (Suc k) zero ctx step s = iteration zero ctx t @ rest" by auto
    with that show False by (cases t) simp
  qed
  have open0: "Close \<notin> set (Stream_events 0 zero ctx step s)"
    by (simp add: Stream_events_def)
  have closed: "\<forall>t. fst (step ctx s) \<noteq> Returns t"
    if "Close \<in> set (Stream_events n zero ctx step s)"
      and "sent (Stream_events n zero ctx step s) = []"
    using that open0 zero_results by (cases n) auto
  have ended: "(\<exists>m. tr = Stream_events m zero ctx step s)
        \<and> (\<exists>rest. tr = Call ctx # rest)
        \<and> (\<forall>v err next. fst (step ctx s) = Returns (v, err, next) \<longrightarrow>
             (\<exists>rest. tr = Call ctx # Send (result_of zero v err) # rest \<and> rest \<noteq> []))
        \<and> (sent tr = [] \<longrightarrow> (\<forall>t. fst (step ctx s) \<noteq> Returns t))"
    if run: "Stream zero ctx step s = Some tr" for tr
  proof -
    from Stream_ended [OF run] obtain k where k: "tr = Stream_events (Suc k) zero ctx step s" ..
    from run have "last tr = Close \<or> last tr = Fault"
      using last_deferred_close by (auto simp: Stream_def)
    then have "rest \<noteq> []" if "tr = Call ctx # Send x # rest" for x rest
      using that by auto
    with k starts [of k] sends [of _ _ _ k] zero_results [of k] show ?thesis
      by (metis (no_types))
  qed
  have panics: "Stream zero ctx step s = Some [Call ctx, Close, Fault]"
    if "fst (step ctx s) = Panics"
  proof -
    from that obtain s' where "step ctx s = (Panics, s')" by (cases "step ctx s") simp
    from Stream_loop_Panics [where step = step and ctx = ctx, OF this, of zero "[]"] show ?thesis by (simp add: Stream_def)
  qed
  have goexits: "Stream zero ctx step s = Some [Call ctx, Close]"
    if "fst (step ctx s) = Goexits"
  proof -
    from that obtain s' where "step ctx s = (Goexits, s')" by (cases "step ctx s") simp
    from Stream_loop_Goexits [where step = step and ctx = ctx, OF this, of zero "[]"] show ?thesis by (simp add: Stream_def)
  qed
  from starts [of n] sends [of _ _ _ n] closed ended bounded panics goexits show ?thesis
    by blast
qed

theorem Stream_first_iteration_witness:
  "Stream (0::int) (0::nat) forever_step 0 = None
   \<and> Stream_events (Suc (Suc 0)) (0::int) (0::nat) forever_step 0 =
       [Call 0, Send \<lparr>Value = 1, Error = None\<rparr>, Call 0, Send \<lparr>Value = 2, Error = None\<rparr>]
   \<and> (\<exists>rest. Stream_events (Suc (Suc 0)) (0::int) (0::nat) forever_step 0 =
         Call 0 # Send \<lparr>Value = 1, Error = None\<rparr> # rest)
   \<and> Stream (0::int) (0::nat) counter_step 0 =
       Some (Stream_events (Suc (Suc (Suc 0))) 0 0 counter_step 0)
   \<and> Stream_events (Suc (Suc (Suc 0))) (0::int) (0::nat) counter_step 0 =
       [Call 0, Send \<lparr>Value = 1, Error = None\<rparr>,
        Call 0, Send \<lparr>Value = 2, Error = None\<rparr>,
        Call 0, Send \<lparr>Value = 3, Error = None\<rparr>, Close]"
proof -
  have ev: "Stream_events (Suc (Suc 0)) (0::int) (0::nat) forever_step 0 =
       [Call 0, Send \<lparr>Value = 1, Error = None\<rparr>, Call 0, Send \<lparr>Value = 2, Error = None\<rparr>]"
    by (simp add: Stream_events_def forever_step_def success_def)
  have ev3: "Stream_events (Suc (Suc (Suc 0))) (0::int) (0::nat) counter_step 0 =
       [Call 0, Send \<lparr>Value = 1, Error = None\<rparr>,
        Call 0, Send \<lparr>Value = 2, Error = None\<rparr>,
        Call 0, Send \<lparr>Value = 3, Error = None\<rparr>, Close]"
    by (simp add: Stream_events_def counter_step_def success_def)
  from Stream_first_iteration [of "Suc 0" "0::int" "0::nat" forever_step 0]
  have "\<exists>rest. Stream_events (Suc (Suc 0)) (0::int) (0::nat) forever_step 0 =
         Call 0 # Send \<lparr>Value = 1, Error = None\<rparr> # rest"
    by (auto simp: forever_step_def result_of_def success_def)
  moreover from Stream_first_iteration [of "Suc (Suc (Suc 0))" "0::int" "0::nat" counter_step 0]
  have "Stream (0::int) (0::nat) counter_step 0 =
       Some (Stream_events (Suc (Suc (Suc 0))) 0 0 counter_step 0)"
    by (auto simp: counter_step_def)
  ultimately show ?thesis using ev ev3 Stream_forever_step [of "0::int" "0::nat" 0]
    by simp
qed


section \<open>The context\<close>

text \<open>
  C8. Neither goroutine looks at the context: it is handed to the action, to every
  call of \<open>step\<close>, and to nothing else. So two runs of \<open>Do\<close> with any two contexts
  in which the action returns the same send the same result and close alike, and
  two runs of \<open>Stream\<close> with any two contexts in which the calls the loop makes
  return the same have the same events on the channel, in the same order, or
  neither run ends.
\<close>

theorem context_passed_through:
  "(action1 c1 = action2 c2 \<longrightarrow>
      channel_events (Do zero c1 action1) = channel_events (Do zero c2 action2))
   \<and> ((\<forall>n. loop_calls step1 c1 s1 n = loop_calls step2 c2 s2 n) \<longrightarrow>
      map_option channel_events (Stream zero c1 step1 s1) =
      map_option channel_events (Stream zero c2 step2 s2))
   \<and> called (Do zero c1 action1) = [c1]
   \<and> (\<forall>tr. Stream zero c1 step1 s1 = Some tr \<longrightarrow> set (called tr) \<subseteq> {c1})"
proof -
  have "channel_events (Do zero c1 action1) = channel_events (Do zero c2 action2)"
    if "action1 c1 = action2 c2"
    using that
    by (simp add: Do_def Do_body_def channel_events_def split: returned.splits prod.splits)
  moreover have "map_option channel_events (Stream zero c1 step1 s1) =
      map_option channel_events (Stream zero c2 step2 s2)"
    if agree: "\<forall>n. loop_calls step1 c1 s1 n = loop_calls step2 c2 s2 n"
  proof (cases "Stream zero c1 step1 s1")
    case (Some tr)
    from Stream_same_returns [OF agree Some] Some show ?thesis by auto
  next
    case None
    show ?thesis
    proof (cases "Stream zero c2 step2 s2")
      case (Some tr)
      from agree have "\<forall>n. loop_calls step2 c2 s2 n = loop_calls step1 c1 s1 n" by simp
      from Stream_same_returns [OF this Some] None show ?thesis by auto
    next
      case None
      with \<open>Stream zero c1 step1 s1 = None\<close> show ?thesis by simp
    qed
  qed
  moreover have "called (Do zero c1 action1) = [c1]"
    by (simp add: Do_def Do_body_def split: returned.splits prod.splits)
  moreover have "set (called tr) \<subseteq> {c1}" if "Stream zero c1 step1 s1 = Some tr" for tr
  proof -
    from that obtain y where y: "Stream_loop zero c1 step1 s1 [] = Some y"
      and tr: "tr = deferred_close y"
      by (auto simp: Stream_def)
    from Stream_loop_called [OF y] show ?thesis by (simp add: tr)
  qed
  ultimately show ?thesis by blast
qed

theorem context_passed_through_witness:
  "map_option channel_events (Stream 0 (1::nat) counter_step 0) =
     Some [Send \<lparr>Value = 1, Error = None\<rparr>, Send \<lparr>Value = 2, Error = None\<rparr>,
           Send \<lparr>Value = 3, Error = None\<rparr>, Close]
   \<and> channel_events (Do [] (1::nat) hi_action) =
       [Send \<lparr>Value = ''hi'', Error = None\<rparr>, Close]"
proof -
  have run: "Stream 0 (0::nat) counter_step 0 =
     Some [Call 0, Send \<lparr>Value = 1, Error = None\<rparr>,
           Call 0, Send \<lparr>Value = 2, Error = None\<rparr>,
           Call 0, Send \<lparr>Value = 3, Error = None\<rparr>, Close]"
    using Stream_loop_script [of counter_step "0::nat" 0
      "[(1, None, True), (2, None, True), (3, None, False)]" 0 "[]"]
    by (simp add: Stream_def counter_step_def result_of_def success_def)
  have agree: "\<forall>n. loop_calls counter_step (0::nat) 0 n = loop_calls counter_step (1::nat) 0 n"
    by (simp add: counter_step_ignores_ctx [of "0::nat" _ _ "1::nat"])
  have do0: "Do [] (0::nat) hi_action = [Call 0, Send \<lparr>Value = ''hi'', Error = None\<rparr>, Close]"
    by (simp add: Do_def Do_body_def hi_action_def success_def)
  from context_passed_through [of "crashing_action :: nat \<Rightarrow> (int \<times> string option) returned"
      "0::nat" crashing_action "1::nat" 0 counter_step 0 counter_step 0] agree run
  have "map_option channel_events (Stream 0 (1::nat) counter_step 0) =
     Some [Send \<lparr>Value = 1, Error = None\<rparr>, Send \<lparr>Value = 2, Error = None\<rparr>,
           Send \<lparr>Value = 3, Error = None\<rparr>, Close]"
    by (simp add: channel_events_def)
  moreover from context_passed_through [of hi_action "0::nat" hi_action "1::nat" "[]"
      "crashing_step :: nat \<Rightarrow> nat \<Rightarrow> (string \<times> string option \<times> bool) returned \<times> nat"
      0 crashing_step "0::nat"] do0
  have "channel_events (Do [] (1::nat) hi_action) =
       [Send \<lparr>Value = ''hi'', Error = None\<rparr>, Close]"
    by (simp add: hi_action_def channel_events_def)
  ultimately show ?thesis by simp
qed

section \<open>A consumer that never reads\<close>

text \<open>
  C9. The channel of \<open>Do\<close> has no buffer. When the action has returned and the
  consumer never receives, the goroutine gets as far as the call of the action and
  stays blocked at the send: nothing is sent, the channel is not closed, and the
  goroutine does not finish. It finishes exactly when the consumer receives at least
  once.
\<close>

theorem Do_blocks_without_reader:
  assumes "action ctx = Returns (v, err)"
  shows "progress 0 (Do zero ctx action) = [Call ctx]
       \<and> sent (progress 0 (Do zero ctx action)) = []
       \<and> Close \<notin> set (progress 0 (Do zero ctx action))
       \<and> (\<forall>n. (progress n (Do zero ctx action) = Do zero ctx action) = (0 < n))"
proof -
  have tr: "Do zero ctx action = [Call ctx, Send (result_of zero v err), Close]"
    using assms by (simp add: Do_def Do_body_def result_of_def)
  have "(progress n (Do zero ctx action) = Do zero ctx action) = (0 < n)" for n
    by (cases n) (simp_all add: tr progress_def capacity_def)
  then show ?thesis by (simp add: tr progress_def capacity_def)
qed

theorem Do_blocks_without_reader_witness:
  "progress 0 (Do [] (0::nat) hi_action) = [Call 0]
   \<and> progress 1 (Do [] (0::nat) hi_action) =
       [Call 0, Send \<lparr>Value = ''hi'', Error = None\<rparr>, Close]"
  using Do_blocks_without_reader [of hi_action "0::nat" "''hi''" None "[]"]
  by (simp add: hi_action_def Do_def Do_body_def success_def progress_def capacity_def)


end
